theory Spec2Isabelle
  imports Main
begin

section \<open>Python values, dictionaries and exceptions\<close>

text \<open>
  The values the dispatcher reads out of a recording: the job id and the recording type
  are whatever the API put into the JSON object, an integer or a string.
\<close>

datatype pyval = IntV int | StrV string

text \<open>
  A Python \<open>dict\<close> keeps its keys in insertion order and \<open>list(d.items())\<close> walks them in
  that order, so a dictionary is an association list. A well-formed dictionary has each
  key once.
\<close>

type_synonym ('k, 'v) pydict = "('k \<times> 'v) list"

definition wf_dict :: "('k, 'v) pydict \<Rightarrow> bool" where
  "wf_dict d = distinct (map fst d)"

text \<open>\<open>k in d\<close>\<close>

definition dict_contains :: "('k, 'v) pydict \<Rightarrow> 'k \<Rightarrow> bool" where
  "dict_contains d k = (k \<in> set (map fst d))"

text \<open>\<open>d[k]\<close>: \<open>None\<close> stands for the \<open>KeyError\<close> the caller has to raise.\<close>

definition dict_get :: "('k, 'v) pydict \<Rightarrow> 'k \<Rightarrow> 'v option" where
  "dict_get d k = map_of d k"

text \<open>\<open>del d[k]\<close>: \<open>None\<close> stands for the \<open>KeyError\<close> of a missing key.\<close>

definition dict_del :: "('k, 'v) pydict \<Rightarrow> 'k \<Rightarrow> ('k, 'v) pydict option" where
  "dict_del d k =
     (if dict_contains d k then Some (filter (\<lambda>kv. fst kv \<noteq> k) d) else None)"

text \<open>\<open>d[k] = v\<close>: an existing key keeps its place, a new key goes to the end.\<close>

fun dict_set :: "('k, 'v) pydict \<Rightarrow> 'k \<Rightarrow> 'v \<Rightarrow> ('k, 'v) pydict" where
  "dict_set [] k v = [(k, v)]"
| "dict_set ((k', v') # d) k v =
     (if k' = k then (k, v) # d else (k', v') # dict_set d k v)"

text \<open>
  The exceptions that can leave \<open>poll\<close>: a missing key, a missing attribute, and whatever
  the API client or the process pool raise (opaque to the dispatcher).
\<close>

datatype exc = KeyError pyval | AttributeError string | External string

text \<open>What an external call does: it raises, or it returns a value.\<close>

datatype 'a reply = Raises exc | Returns 'a

section \<open>Futures, recordings and the observable trace\<close>

text \<open>
  The exception object \<open>future.exception()\<close> hands back. \<open>message\<close> is what \<open>{err}\<close>
  formats to. \<open>traceback\<close> is the attribute \<open>err.traceback\<close>: the pool attaches it to an
  exception raised inside the worker function, and any other exception object has no such
  attribute (\<open>None\<close>), in which case reading it raises \<open>AttributeError\<close>. An exception
  object is true in \<open>if err:\<close> unless its class defines \<open>__bool__\<close> or \<open>__len__\<close>; the
  exceptions of the pool and of the process functions do not, and the model takes every
  exception object as true.
\<close>

datatype job_error = JobError (message: string) (traceback: "string option")

text \<open>
  A future as \<open>reap_completed\<close> sees it when it asks: still running, or finished with
  the value of \<open>future.exception()\<close> (\<open>None\<close> for a job that succeeded).
\<close>

datatype future = Pending | Finished "job_error option"

fun future_done :: "future \<Rightarrow> bool" where
  "future_done Pending = False"
| "future_done (Finished outcome) = True"

text \<open>
  \<open>future.exception()\<close>. On a future that is still running the call would wait for the
  job to end; \<open>reap_completed\<close> asks only once \<open>done()\<close> is true.
\<close>

fun future_exception :: "future \<Rightarrow> job_error option" where
  "future_exception (Finished outcome) = outcome"
| "future_exception Pending = None"

text \<open>A recording is the JSON object \<open>api.next_job\<close> returns.\<close>

type_synonym recording = "(string, pyval) pydict"

text \<open>\<open>if recording:\<close> is false for \<open>None\<close> and for an empty dict.\<close>

fun truthy :: "recording option \<Rightarrow> bool" where
  "truthy None = False"
| "truthy (Some r) = (r \<noteq> [])"

text \<open>
  Everything \<open>main.py\<close> does that can be seen from outside, in the order it happens:
  the call of \<open>api.next_job\<close>, the debug line of a scheduled job, the call of
  \<open>pool.schedule\<close>, the error line of a failed job (recording type, processing state,
  job id, the error's text and its traceback), the traceback the main loop logs, and
  \<open>time.sleep\<close>.
\<close>

datatype 'f event =
    NextJob string string
  | LogDebug pyval pyval string
  | Schedule 'f recording
  | LogError string string pyval string string
  | LogTraceback exc
  | Sleep nat

fun is_next_job :: "'f event \<Rightarrow> bool" where
  "is_next_job (NextJob rt st) = True"
| "is_next_job _ = False"

fun is_schedule :: "'f event \<Rightarrow> bool" where
  "is_schedule (Schedule f r) = True"
| "is_schedule _ = False"

fun is_log :: "'f event \<Rightarrow> bool" where
  "is_log (LogDebug i t s) = True"
| "is_log (LogError rt st i m tb) = True"
| "is_log (LogTraceback e) = True"
| "is_log _ = False"

definition next_job_calls :: "'f event list \<Rightarrow> nat" where
  "next_job_calls tr = length (filter is_next_job tr)"

text \<open>
  The collaborators: the API client and the process pool. What they answer may depend on
  everything that happened before, so each takes the trace so far.
\<close>

record 'f env =
  next_job :: "'f event list \<Rightarrow> string \<Rightarrow> string \<Rightarrow> recording option reply"
  schedule :: "'f event list \<Rightarrow> 'f \<Rightarrow> recording \<Rightarrow> future reply"

section \<open>Processor\<close>

record 'f processor =
  recording_type :: string
  processing_state :: string
  process_func :: 'f
  num_workers :: int
  in_progress :: "(pyval, future) pydict"

text \<open>\<open>Processor.__init__\<close>\<close>

definition Processor :: "string \<Rightarrow> string \<Rightarrow> 'f \<Rightarrow> int \<Rightarrow> 'f processor" where
  "Processor rt st f n =
     \<lparr>recording_type = rt, processing_state = st, process_func = f,
      num_workers = n, in_progress = []\<rparr>"

text \<open>
  The loop of \<open>reap_completed\<close> over the snapshot \<open>list(self.in_progress.items())\<close>;
  \<open>d\<close> is \<open>self.in_progress\<close> as the loop changes it. An exception ends the loop where
  it is raised, with the dictionary as it is then.
\<close>

fun reap_loop ::
  "string \<Rightarrow> string \<Rightarrow> (pyval \<times> future) list \<Rightarrow> (pyval, future) pydict \<Rightarrow> 'f event list
   \<Rightarrow> exc option \<times> (pyval, future) pydict \<times> 'f event list" where
  "reap_loop rt st [] d tr = (None, d, tr)"
| "reap_loop rt st ((recording_id, fut) # items) d tr =
     (if future_done fut then
        (case dict_del d recording_id of
           None \<Rightarrow> (Some (KeyError recording_id), d, tr)
         | Some d' \<Rightarrow>
             (case future_exception fut of
                None \<Rightarrow> reap_loop rt st items d' tr
              | Some err \<Rightarrow>
                  (case traceback err of
                     None \<Rightarrow> (Some (AttributeError ''traceback''), d', tr)
                   | Some tb \<Rightarrow>
                       reap_loop rt st items d'
                         (tr @ [LogError rt st recording_id (message err) tb]))))
      else reap_loop rt st items d tr)"

definition reap_completed ::
  "'f processor \<Rightarrow> 'f event list \<Rightarrow> exc option \<times> 'f processor \<times> 'f event list" where
  "reap_completed self tr =
     (case reap_loop (recording_type self) (processing_state self)
             (in_progress self) (in_progress self) tr of
        (r, d, tr') \<Rightarrow> (r, self\<lparr>in_progress := d\<rparr>, tr'))"

text \<open>
  \<open>Processor.poll\<close>. The result is the exception that left the call (if any), the
  processor as the call left it, and the trace.
\<close>

definition poll ::
  "'f env \<Rightarrow> 'f processor \<Rightarrow> 'f event list \<Rightarrow> exc option \<times> 'f processor \<times> 'f event list" where
  "poll env self tr =
     (case reap_completed self tr of
        (Some e, self1, tr1) \<Rightarrow> (Some e, self1, tr1)
      | (None, self1, tr1) \<Rightarrow>
          if num_workers self1 \<le> int (length (in_progress self1)) then (None, self1, tr1)
          else
            let tr2 = tr1 @ [NextJob (recording_type self1) (processing_state self1)] in
            (case next_job env tr1 (recording_type self1) (processing_state self1) of
               Raises e \<Rightarrow> (Some e, self1, tr2)
             | Returns recording \<Rightarrow>
                 if truthy recording then
                   (case recording of
                      None \<Rightarrow> (None, self1, tr2)
                    | Some r \<Rightarrow>
                        (case dict_get r ''id'' of
                           None \<Rightarrow> (Some (KeyError (StrV ''id'')), self1, tr2)
                         | Some rid \<Rightarrow>
                             (case dict_get r ''type'' of
                                None \<Rightarrow> (Some (KeyError (StrV ''type'')), self1, tr2)
                              | Some rty \<Rightarrow>
                                  let tr3 = tr2 @ [LogDebug rid rty (processing_state self1)];
                                      tr4 = tr3 @ [Schedule (process_func self1) r] in
                                  (case schedule env tr3 (process_func self1) r of
                                     Raises e \<Rightarrow> (Some e, self1, tr4)
                                   | Returns fut \<Rightarrow>
                                       (None,
                                        self1\<lparr>in_progress :=
                                                dict_set (in_progress self1) rid fut\<rparr>,
                                        tr4)))))
                 else (None, self1, tr2)))"

section \<open>Processors and the main loop\<close>

text \<open>\<open>Processors.add\<close>; \<open>self\<close> is the list the class extends.\<close>

definition add ::
  "'f processor list \<Rightarrow> string \<Rightarrow> string \<Rightarrow> 'f \<Rightarrow> int \<Rightarrow> 'f processor list" where
  "add self rt st f n = (if n < 1 then self else self @ [Processor rt st f n])"

definition SLEEP_SECS :: nat where
  "SLEEP_SECS = 2"

text \<open>
  \<open>for processor in processors: processor.poll()\<close>, inside the \<open>try\<close>: the first
  exception leaves the loop.
\<close>

fun poll_each ::
  "'f env \<Rightarrow> 'f processor list \<Rightarrow> 'f event list
   \<Rightarrow> exc option \<times> 'f processor list \<times> 'f event list" where
  "poll_each env [] tr = (None, [], tr)"
| "poll_each env (p # ps) tr =
     (case poll env p tr of
        (Some e, p', tr') \<Rightarrow> (Some e, p' # ps, tr')
      | (None, p', tr') \<Rightarrow>
          (case poll_each env ps tr' of (r, ps', tr'') \<Rightarrow> (r, p' # ps', tr'')))"

text \<open>One pass of the \<open>while True\<close> loop of \<open>main\<close>: the \<open>try\<close> block, then the sleep.\<close>

definition main_pass ::
  "'f env \<Rightarrow> 'f processor list \<Rightarrow> 'f event list \<Rightarrow> 'f processor list \<times> 'f event list" where
  "main_pass env processors tr =
     (case poll_each env processors tr of
        (None, ps, tr') \<Rightarrow> (ps, tr' @ [Sleep SLEEP_SECS])
      | (Some e, ps, tr') \<Rightarrow> (ps, tr' @ [LogTraceback e, Sleep SLEEP_SECS]))"

section \<open>Reachable processors and example inputs\<close>

text \<open>
  The processors a run of \<open>main\<close> can hold: one made by \<open>Processors.add\<close>, one left by a
  call of \<open>poll\<close> (whatever the collaborators answered, whether or not the call raised),
  and one whose futures have moved on in between (the workers run on their own; the keys
  stay).
\<close>

inductive reachable :: "'f processor \<Rightarrow> bool" where
  created: "self \<in> set (add [] rt st f n) \<Longrightarrow> reachable self"
| polled: "reachable self \<Longrightarrow> poll env self tr = (r, self', tr') \<Longrightarrow> reachable self'"
| progressed:
    "reachable self \<Longrightarrow> map fst d = map fst (in_progress self)
     \<Longrightarrow> reachable (self\<lparr>in_progress := d\<rparr>)"

text \<open>
  A future \<open>reap_completed\<close> can reap without raising: its exception, if it has one,
  carries the \<open>traceback\<close> attribute.
\<close>

definition reapable :: "future \<Rightarrow> bool" where
  "reapable fut =
     (case future_exception fut of None \<Rightarrow> True | Some err \<Rightarrow> traceback err \<noteq> None)"

text \<open>The error lines a reap of \<open>items\<close> writes, in order.\<close>

fun failure_logs :: "string \<Rightarrow> string \<Rightarrow> (pyval \<times> future) list \<Rightarrow> 'f event list" where
  "failure_logs rt st [] = []"
| "failure_logs rt st ((k, fut) # items) =
     (if future_done fut then
        (case future_exception fut of
           None \<Rightarrow> failure_logs rt st items
         | Some err \<Rightarrow>
             (case traceback err of
                None \<Rightarrow> failure_logs rt st items
              | Some tb \<Rightarrow> LogError rt st k (message err) tb # failure_logs rt st items))
      else failure_logs rt st items)"

text \<open>The three process functions \<open>main\<close> registers.\<close>

datatype handler = AudioConvert | AudioAnalysis | Thermal

text \<open>A job source with nothing to do, and a pool that accepts every job.\<close>

definition idle_env :: "handler env" where
  "idle_env = \<lparr>next_job = (\<lambda>tr rt st. Returns None), schedule = (\<lambda>tr f r. Returns Pending)\<rparr>"

text \<open>
  A job source that fails for audio recordings and has a job waiting for every other
  recording type.
\<close>

definition audio_down_env :: "handler env" where
  "audio_down_env =
     \<lparr>next_job = (\<lambda>tr rt st.
        if rt = ''audio'' then Raises (External ''connection refused'')
        else Returns (Some [(''id'', IntV 7), (''type'', StrV rt)])),
      schedule = (\<lambda>tr f r. Returns Pending)\<rparr>"

text \<open>
  Two finished futures. The first is a job whose worker process died: the pool sets an
  exception that was never raised inside the worker function, so it has no \<open>traceback\<close>
  attribute. The second is a job whose process function raised.
\<close>

definition worker_crashed :: future where
  "worker_crashed = Finished (Some (JobError ''Abnormal termination'' None))"

definition handler_failed :: future where
  "handler_failed =
     Finished (Some (JobError ''bad file'' (Some ''Traceback (most recent call last)'')))"

text \<open>The error line of job \<open>k\<close>.\<close>

fun logs_failure_of :: "pyval \<Rightarrow> 'f event \<Rightarrow> bool" where
  "logs_failure_of k (LogError rt st k' m tb) = (k' = k)"
| "logs_failure_of k _ = False"

text \<open>The processors of a configuration with one worker for each of two stages.\<close>

definition two_processors :: "handler processor list" where
  "two_processors =
     add (add [] ''audio'' ''toMp3'' AudioConvert 1) ''thermalRaw'' ''getMetadata'' Thermal 1"

section \<open>Track data of the thermal classifier\<close>

text \<open>
  A track is a JSON object. \<open>format_track_data\<close> gets \<open>classify_info["tracks"]\<close>:
  \<open>None\<close> or a list of tracks. It returns a new empty dict, or the list it was given.
\<close>

type_synonym 'v track = "(string, 'v) pydict"

datatype 'v formatted = EmptyDict | TrackList "'v track list"

text \<open>The \<open>for track in tracks\<close> loop, which changes each track in place.\<close>

fun format_track_loop :: "'v track list \<Rightarrow> exc + 'v track list" where
  "format_track_loop [] = Inr []"
| "format_track_loop (track # tracks) =
     (if dict_contains track ''frame_start'' then
        (case dict_del track ''frame_start'' of
           None \<Rightarrow> Inl (KeyError (StrV ''frame_start''))
         | Some track' \<Rightarrow>
             (case format_track_loop tracks of
                Inl e \<Rightarrow> Inl e
              | Inr tracks' \<Rightarrow> Inr (track' # tracks')))
      else
        (case format_track_loop tracks of
           Inl e \<Rightarrow> Inl e
         | Inr tracks' \<Rightarrow> Inr (track # tracks')))"

definition format_track_data :: "'v track list option \<Rightarrow> exc + 'v formatted" where
  "format_track_data tracks =
     (case tracks of
        None \<Rightarrow> Inr EmptyDict
      | Some ts \<Rightarrow>
          if ts = [] then Inr EmptyDict
          else (case format_track_loop ts of
                  Inl e \<Rightarrow> Inl e
                | Inr ts' \<Rightarrow> Inr (TrackList ts')))"

section \<open>Dictionary and reap lemmas\<close>

lemma dict_del_length: "dict_del d k = Some d' \<Longrightarrow> length d' \<le> length d"
  by (auto simp: dict_del_def split: if_splits)

lemma dict_set_length: "length (dict_set d k v) \<le> Suc (length d)"
  by (induction d) auto

lemma reap_loop_length:
  "reap_loop rt st items d tr = (r, d', tr') \<Longrightarrow> length d' \<le> length d"
proof (induction items arbitrary: d tr)
  case Nil then show ?case by simp
next
  case (Cons it items)
  obtain k fut where it: "it = (k, fut)" by (cases it)
  from Cons.prems show ?case unfolding it
    by (auto split: if_splits option.splits dest!: Cons.IH dict_del_length)
qed

lemma reap_loop_calls:
  "reap_loop rt st items d tr = (r, d', tr') \<Longrightarrow> next_job_calls tr' = next_job_calls tr"
proof (induction items arbitrary: d tr)
  case Nil then show ?case by simp
next
  case (Cons it items)
  obtain k fut where it: "it = (k, fut)" by (cases it)
  from Cons.prems show ?case unfolding it
    by (auto simp: next_job_calls_def split: if_splits option.splits dest!: Cons.IH)
qed

lemma reap_completed_fields:
  assumes "reap_completed self tr = (r, self', tr')"
  shows "num_workers self' = num_workers self"
    and "recording_type self' = recording_type self"
    and "processing_state self' = processing_state self"
    and "process_func self' = process_func self"
    and "length (in_progress self') \<le> length (in_progress self)"
    and "next_job_calls tr' = next_job_calls tr"
  using assms
  by (auto simp: reap_completed_def split: prod.splits dest: reap_loop_length reap_loop_calls)

lemma dict_del_present:
  assumes "distinct (map fst d)" "(k, v) \<in> set d"
  shows "dict_del d k = Some (filter (\<lambda>kv. kv \<noteq> (k, v)) d)"
proof -
  have "filter (\<lambda>kv. fst kv \<noteq> k) d = filter (\<lambda>kv. kv \<noteq> (k, v)) d"
    using assms by (intro filter_cong) (auto dest: eq_key_imp_eq_value)
  moreover have "dict_contains d k"
    using assms(2) by (force simp: dict_contains_def)
  ultimately show ?thesis by (simp add: dict_del_def)
qed

lemma reap_loop_clean:
  fixes tr :: "'f event list"
  assumes "distinct (map fst d)" "distinct (map fst items)" "set items \<subseteq> set d"
    and "\<forall>kv \<in> set items. reapable (snd kv)"
  shows "reap_loop rt st items d tr =
           (None, filter (\<lambda>kv. \<not> (kv \<in> set items \<and> future_done (snd kv))) d,
            tr @ failure_logs rt st items)"
  using assms
proof (induction items arbitrary: d tr)
  case Nil then show ?case by simp
next
  case (Cons it items)
  obtain k fut where it: "it = (k, fut)" by (cases it)
  show ?case
  proof (cases "future_done fut")
    case False
    have "reap_loop rt st items d tr =
           (None, filter (\<lambda>kv. \<not> (kv \<in> set items \<and> future_done (snd kv))) d,
            tr @ failure_logs rt st items)"
    proof (rule Cons.IH)
      show "distinct (map fst d)" using Cons.prems(1) .
      show "distinct (map fst items)" using Cons.prems(2) by simp
      show "set items \<subseteq> set d" using Cons.prems(3) by simp
      show "\<forall>kv \<in> set items. reapable (snd kv)" using Cons.prems(4) by simp
    qed
    moreover have "filter (\<lambda>kv. \<not> (kv \<in> set items \<and> future_done (snd kv))) d =
        filter (\<lambda>kv. \<not> (kv \<in> set (it # items) \<and> future_done (snd kv))) d"
      using False by (intro filter_cong) (auto simp: it)
    ultimately show ?thesis using False by (simp add: it)
  next
    case True
    let ?d' = "filter (\<lambda>kv. kv \<noteq> (k, fut)) d"
    have mem: "(k, fut) \<in> set d" using Cons.prems(3) by (simp add: it)
    have del: "dict_del d k = Some ?d'"
      using dict_del_present[OF Cons.prems(1) mem] .
    have k_fresh: "(k, fut) \<notin> set items"
      using Cons.prems(2) by (force simp: it)
    have IH: "reap_loop rt st items ?d' tr' =
           (None, filter (\<lambda>kv. \<not> (kv \<in> set items \<and> future_done (snd kv))) ?d',
            tr' @ failure_logs rt st items)" for tr' :: "'f event list"
    proof (rule Cons.IH)
      show "distinct (map fst ?d')" using Cons.prems(1) by (simp add: distinct_map_filter)
      show "distinct (map fst items)" using Cons.prems(2) by simp
      show "set items \<subseteq> set ?d'" using Cons.prems(3) k_fresh by auto
      show "\<forall>kv \<in> set items. reapable (snd kv)" using Cons.prems(4) by simp
    qed
    have flt: "filter (\<lambda>kv. \<not> (kv \<in> set items \<and> future_done (snd kv))) ?d' =
        filter (\<lambda>kv. \<not> (kv \<in> set (it # items) \<and> future_done (snd kv))) d"
      unfolding filter_filter using True by (intro filter_cong) (auto simp: it)
    have rp: "reapable fut" using Cons.prems(4) by (simp add: it)
    show ?thesis
    proof (cases "future_exception fut")
      case None
      then show ?thesis using True del IH flt by (simp add: it)
    next
      case (Some err)
      then obtain tb where tb: "traceback err = Some tb"
        using rp by (auto simp: reapable_def)
      show ?thesis using True del IH flt Some tb by (simp add: it)
    qed
  qed
qed

lemma poll_cases:
  assumes "poll env self tr = (r, self', tr')"
    and "reap_completed self tr = (r1, self1, tr1)"
  shows "self' = self1 \<or>
         (\<exists>k v. self' = self1\<lparr>in_progress := dict_set (in_progress self1) k v\<rparr> \<and>
                int (length (in_progress self1)) < num_workers self1)"
  using assms(1)
  by (auto simp: poll_def assms(2) Let_def split: option.splits reply.splits if_splits)

lemma poll_bound:
  assumes "poll env self tr = (r, self', tr')"
  shows "num_workers self' = num_workers self"
    and "length (in_progress self') \<le> Suc (length (in_progress self))"
    and "int (length (in_progress self)) \<le> num_workers self
         \<Longrightarrow> int (length (in_progress self')) \<le> num_workers self'"
proof -
  obtain r1 self1 tr1 where rc: "reap_completed self tr = (r1, self1, tr1)"
    by (cases "reap_completed self tr")
  note f = reap_completed_fields(1,5)[OF rc]
  from poll_cases[OF assms rc]
  consider (same) "self' = self1"
    | (added) k v where "self' = self1\<lparr>in_progress := dict_set (in_progress self1) k v\<rparr>"
        "int (length (in_progress self1)) < num_workers self1"
    by blast
  then have "num_workers self' = num_workers self \<and>
    length (in_progress self') \<le> Suc (length (in_progress self)) \<and>
    (int (length (in_progress self)) \<le> num_workers self
         \<longrightarrow> int (length (in_progress self')) \<le> num_workers self')"
  proof cases
    case same
    then show ?thesis using f by simp
  next
    case added
    have "length (dict_set (in_progress self1) k v) \<le> Suc (length (in_progress self1))"
      by (rule dict_set_length)
    then show ?thesis using added f by simp
  qed
  then show "num_workers self' = num_workers self"
    and "length (in_progress self') \<le> Suc (length (in_progress self))"
    and "int (length (in_progress self)) \<le> num_workers self
         \<Longrightarrow> int (length (in_progress self')) \<le> num_workers self'"
    by simp_all
qed

lemma reachable_bound: "reachable self \<Longrightarrow> int (length (in_progress self)) \<le> num_workers self"
proof (induction rule: reachable.induct)
  case (created self rt st f n)
  then show ?case by (auto simp: add_def Processor_def split: if_splits)
next
  case (polled self env tr r self' tr')
  then show ?case using poll_bound(3) by blast
next
  case (progressed self d)
  have "length d = length (in_progress self)"
    using progressed.hyps(2) by (metis length_map)
  then show ?case using progressed.IH by simp
qed

lemma reap_loop_None_reapable:
  "reap_loop rt st items d tr = (None, d', tr') \<Longrightarrow> \<forall>kv \<in> set items. reapable (snd kv)"
proof (induction items arbitrary: d tr)
  case Nil then show ?case by simp
next
  case (Cons it items)
  obtain k fut where it: "it = (k, fut)" by (cases it)
  show ?case
  proof (cases "future_done fut")
    case False
    then have "future_exception fut = None" by (cases fut) auto
    then have "reapable fut" by (simp add: reapable_def)
    moreover have "\<forall>kv \<in> set items. reapable (snd kv)"
      using Cons.prems False Cons.IH by (simp add: it)
    ultimately show ?thesis by (simp add: it)
  next
    case True
    with Cons.prems obtain d1 where d1: "dict_del d k = Some d1"
      by (auto simp: it split: option.splits)
    show ?thesis
    proof (cases "future_exception fut")
      case None
      then have "reapable fut" by (simp add: reapable_def)
      moreover have "\<forall>kv \<in> set items. reapable (snd kv)"
        using Cons.prems True d1 None Cons.IH by (simp add: it)
      ultimately show ?thesis by (simp add: it)
    next
      case (Some err)
      with Cons.prems True d1 obtain tb where tb: "traceback err = Some tb"
        by (auto simp: it split: option.splits)
      then have "reapable fut" using Some by (simp add: reapable_def)
      moreover have "\<forall>kv \<in> set items. reapable (snd kv)"
        using Cons.prems True d1 Some tb Cons.IH by (simp add: it)
      ultimately show ?thesis by (simp add: it)
    qed
  qed
qed

lemma reap_completed_clean:
  fixes tr :: "'f event list"
  assumes "wf_dict (in_progress self)"
    and "\<forall>kv \<in> set (in_progress self). reapable (snd kv)"
  shows "reap_completed self tr =
           (None,
            self\<lparr>in_progress := filter (\<lambda>kv. \<not> future_done (snd kv)) (in_progress self)\<rparr>,
            tr @ failure_logs (recording_type self) (processing_state self) (in_progress self))"
proof -
  have d: "distinct (map fst (in_progress self))"
    using assms(1) by (simp add: wf_dict_def)
  have "filter (\<lambda>kv. \<not> (kv \<in> set (in_progress self) \<and> future_done (snd kv))) (in_progress self)
      = filter (\<lambda>kv. \<not> future_done (snd kv)) (in_progress self)"
    by (intro filter_cong) auto
  then show ?thesis
    using reap_loop_clean [OF d d subset_refl assms(2), of "recording_type self" "processing_state self" tr]
    by (simp add: reap_completed_def)
qed

lemma reap_completed_None_reapable:
  assumes "reap_completed self tr = (None, self1, tr1)"
  shows "\<forall>kv \<in> set (in_progress self). reapable (snd kv)"
  using assms reap_loop_None_reapable
  by (fastforce simp: reap_completed_def split: prod.splits)

lemma failure_logs_other:
  "k \<notin> fst ` set items \<Longrightarrow> filter (logs_failure_of k) (failure_logs rt st items) = []"
  by (induction items) (auto split: option.splits)

lemma failure_logged_once:
  assumes "distinct (map fst items)" "(k, Finished (Some err)) \<in> set items"
    and "traceback err = Some tb"
  shows "filter (logs_failure_of k) (failure_logs rt st items) =
           [LogError rt st k (message err) tb :: 'f event]"
  using assms
proof (induction items)
  case Nil then show ?case by simp
next
  case (Cons it items)
  obtain k' fut where it: "it = (k', fut)" by (cases it)
  show ?case
  proof (cases "k' = k")
    case True
    have "fut = Finished (Some err)"
      using Cons.prems(1,2) True by (force simp: it)
    moreover have "k \<notin> fst ` set items"
      using Cons.prems(1) True by (simp add: it)
    ultimately show ?thesis
      using True Cons.prems(3) failure_logs_other [of k items rt st]
      by (auto simp: it)
  next
    case False
    then have "(k, Finished (Some err)) \<in> set items"
      using Cons.prems(2) by (auto simp: it)
    then have "filter (logs_failure_of k) (failure_logs rt st items) =
           [LogError rt st k (message err) tb :: 'f event]"
      using Cons.IH Cons.prems(1,3) by simp
    then show ?thesis using False
      by (auto simp: it split: option.splits)
  qed
qed

lemma poll_each_length:
  "poll_each env ps tr = (r, ps', tr') \<Longrightarrow> length ps' = length ps"
proof (induction ps arbitrary: tr ps' tr' r)
  case Nil then show ?case by simp
next
  case (Cons p ps)
  then show ?case
    by (auto split: prod.splits option.splits)
qed

lemma poll_each_first_error:
  assumes "poll_each env ps tr = (Some e, ps', tr')"
  shows "\<exists>k trk. k < length ps \<and>
           poll_each env (take k ps) tr = (None, take k ps', trk) \<and>
           poll env (ps ! k) trk = (Some e, ps' ! k, tr') \<and>
           drop (Suc k) ps' = drop (Suc k) ps"
  using assms
proof (induction ps arbitrary: tr ps')
  case Nil then show ?case by simp
next
  case (Cons p ps)
  obtain r1 p1 tr1 where p: "poll env p tr = (r1, p1, tr1)"
    by (cases "poll env p tr")
  show ?case
  proof (cases r1)
    case (Some e1)
    then have "ps' = p1 # ps" "e1 = e" "tr1 = tr'"
      using Cons.prems p by auto
    then have "0 < length (p # ps) \<and>
           poll_each env (take 0 (p # ps)) tr = (None, take 0 ps', tr) \<and>
           poll env ((p # ps) ! 0) tr = (Some e, ps' ! 0, tr') \<and>
           drop (Suc 0) ps' = drop (Suc 0) (p # ps)"
      using p Some by simp
    then show ?thesis by blast
  next
    case None
    obtain r2 ps2 tr2 where rest: "poll_each env ps tr1 = (r2, ps2, tr2)"
      by (cases "poll_each env ps tr1")
    have eq: "r2 = Some e" "ps' = p1 # ps2" "tr2 = tr'"
      using Cons.prems p None rest by auto
    from Cons.IH [of tr1 ps2] rest eq
    obtain k trk where k: "k < length ps"
      "poll_each env (take k ps) tr1 = (None, take k ps2, trk)"
      "poll env (ps ! k) trk = (Some e, ps2 ! k, tr')"
      "drop (Suc k) ps2 = drop (Suc k) ps"
      by auto
    have "Suc k < length (p # ps) \<and>
           poll_each env (take (Suc k) (p # ps)) tr = (None, take (Suc k) ps', trk) \<and>
           poll env ((p # ps) ! Suc k) trk = (Some e, ps' ! Suc k, tr') \<and>
           drop (Suc (Suc k)) ps' = drop (Suc (Suc k)) (p # ps)"
      using k p None eq by simp
    then show ?thesis by blast
  qed
qed

lemma two_processors_eq:
  "two_processors =
     [Processor ''audio'' ''toMp3'' AudioConvert 1,
      Processor ''thermalRaw'' ''getMetadata'' Thermal 1]"
  by (simp add: two_processors_def add_def)

lemma format_track_loop_eq:
  "format_track_loop tracks = Inr (map (filter (\<lambda>kv. fst kv \<noteq> ''frame_start'')) tracks)"
proof (induction tracks)
  case Nil then show ?case by simp
next
  case (Cons track tracks)
  have "filter (\<lambda>kv. fst kv \<noteq> ''frame_start'') track = track"
    if "\<not> dict_contains track ''frame_start''"
    using that by (force simp: dict_contains_def filter_id_conv)
  then show ?case using Cons.IH
    by (simp add: dict_del_def)
qed

lemma dict_get_filter_other:
  "k \<noteq> k0 \<Longrightarrow> dict_get (filter (\<lambda>kv. fst kv \<noteq> k0) d) k = dict_get d k"
  by (induction d) (auto simp: dict_get_def)

lemma reap_completed_logs_failure_once:
  fixes tr :: "'f event list"
  assumes "wf_dict (in_progress self)"
    and "\<forall>kv \<in> set (in_progress self). reapable (snd kv)"
    and "(k, Finished (Some err)) \<in> set (in_progress self)"
    and "traceback err = Some tb"
  shows "\<exists>self1 logs. reap_completed self tr = (None, self1, tr @ logs) \<and>
           k \<notin> fst ` set (in_progress self1) \<and>
           filter (logs_failure_of k) logs =
             [LogError (recording_type self) (processing_state self) k (message err) tb]"
proof -
  let ?keep = "filter (\<lambda>kv. \<not> future_done (snd kv)) (in_progress self)"
  let ?logs = "failure_logs (recording_type self) (processing_state self) (in_progress self)
                 :: 'f event list"
  have d: "distinct (map fst (in_progress self))"
    using assms(1) by (simp add: wf_dict_def)
  have gone: "k \<notin> fst ` set ?keep"
  proof
    assume "k \<in> fst ` set ?keep"
    then obtain fut where fut: "(k, fut) \<in> set (in_progress self)" "\<not> future_done fut"
      by auto
    have "fut = Finished (Some err)"
      using d fut(1) assms(3) by (rule eq_key_imp_eq_value)
    then show False using fut(2) by simp
  qed
  have "reap_completed self tr = (None, self\<lparr>in_progress := ?keep\<rparr>, tr @ ?logs)"
    using reap_completed_clean [OF assms(1,2)] .
  moreover have "filter (logs_failure_of k) ?logs =
      [LogError (recording_type self) (processing_state self) k (message err) tb]"
    using failure_logged_once [OF d assms(3,4)] .
  ultimately show ?thesis using gone by simp
qed

text \<open>
  Errors after the reap. When \<open>poll\<close> raises after the reap has run to its end (the
  exception comes from \<open>api.next_job\<close>, from reading the recording, or from
  \<open>pool.schedule\<close>), the dictionary the call leaves is the one it found without the
  entries whose future was done: every finished job has been removed before the error
  reaches the main loop, and every running job is still there.
\<close>

lemma poll_error_after_reap:
  assumes "wf_dict (in_progress self)"
    and "fst (reap_completed self tr) = None"
    and "poll env self tr = (Some e, self', tr')"
  shows "in_progress self' = filter (\<lambda>kv. \<not> future_done (snd kv)) (in_progress self) \<and>
         (\<forall>kv \<in> set (in_progress self'). \<not> future_done (snd kv))"
proof -
  obtain self1 tr1 where rc: "reap_completed self tr = (None, self1, tr1)"
    using assms(2) by (cases "reap_completed self tr") auto
  have "self1 = self\<lparr>in_progress := filter (\<lambda>kv. \<not> future_done (snd kv)) (in_progress self)\<rparr>"
    using reap_completed_clean [OF assms(1) reap_completed_None_reapable [OF rc], of tr] rc
    by simp
  moreover have "self' = self1"
    using assms(3)
    by (auto simp: poll_def rc Let_def split: option.splits reply.splits if_splits)
  ultimately show ?thesis by simp
qed

lemma poll_error_after_reap_example:
  "wf_dict [(IntV 1, handler_failed), (IntV 2, Pending), (IntV 3, Finished None)] \<and>
   poll audio_down_env
     ((Processor ''audio'' ''toMp3'' AudioConvert 3)
        \<lparr>in_progress := [(IntV 1, handler_failed), (IntV 2, Pending), (IntV 3, Finished None)]\<rparr>)
     [] =
     (Some (External ''connection refused''),
      (Processor ''audio'' ''toMp3'' AudioConvert 3)\<lparr>in_progress := [(IntV 2, Pending)]\<rparr>,
      [LogError ''audio'' ''toMp3'' (IntV 1) ''bad file'' ''Traceback (most recent call last)'',
       NextJob ''audio'' ''toMp3''])"
proof -
  let ?d = "[(IntV 1, handler_failed), (IntV 2, Pending), (IntV 3, Finished None)]"
  let ?p = "(Processor ''audio'' ''toMp3'' AudioConvert 3)\<lparr>in_progress := ?d\<rparr>"
  let ?p' = "(Processor ''audio'' ''toMp3'' AudioConvert 3)\<lparr>in_progress := [(IntV 2, Pending)]\<rparr>"
  let ?tr = "[LogError ''audio'' ''toMp3'' (IntV 1) ''bad file'' ''Traceback (most recent call last)'',
       NextJob ''audio'' ''toMp3'']"
  have h1: "wf_dict (in_progress ?p)"
    by (simp add: wf_dict_def)
  have h2: "fst (reap_completed ?p []) = None"
    by (simp add: reap_completed_def Processor_def handler_failed_def
          dict_del_def dict_contains_def)
  have h3: "poll audio_down_env ?p [] = (Some (External ''connection refused''), ?p', ?tr)"
    by (simp add: poll_def reap_completed_def Processor_def handler_failed_def
          dict_del_def dict_contains_def audio_down_env_def Let_def)
  show ?thesis
    using h1 h3 poll_error_after_reap [OF h1 h2 h3] by simp
qed

text \<open>
  When every failure in progress carries its traceback, the reap itself cannot raise, so
  whatever exception leaves \<open>poll\<close>, every finished job has been removed before it.
\<close>

lemma poll_error_reaps_done:
  assumes "wf_dict (in_progress self)"
    and "\<forall>kv \<in> set (in_progress self). reapable (snd kv)"
    and "poll env self tr = (Some e, self', tr')"
  shows "in_progress self' = filter (\<lambda>kv. \<not> future_done (snd kv)) (in_progress self)"
proof -
  have "fst (reap_completed self tr) = None"
    by (simp only: reap_completed_clean [OF assms(1,2)] fst_conv)
  from poll_error_after_reap [OF assms(1) this assms(3)]
  show ?thesis by (rule conjunct1)
qed

section \<open>Registration\<close>

text \<open>
  C8. \<open>Processors.add\<close> with a worker count below 1 leaves the list of processors as it
  is; with a worker count of 1 or more it appends exactly one processor, built from the
  arguments, with nothing in progress.
\<close>

theorem add_registers:
  "(n < 1 \<longrightarrow> add self rt st f n = self) \<and>
   (1 \<le> n \<longrightarrow> add self rt st f n = self @ [Processor rt st f n] \<and>
              length (add self rt st f n) = Suc (length self) \<and>
              in_progress (last (add self rt st f n)) = [])"
  by (simp add: add_def Processor_def)

theorem add_registers_witness:
  "(0::int) < 1 \<and> add [] ''thermalRaw'' ''getMetadata'' Thermal 0 = [] \<and>
   (1::int) \<le> 2 \<and>
   add [] ''thermalRaw'' ''getMetadata'' Thermal 2 =
     [Processor ''thermalRaw'' ''getMetadata'' Thermal 2]"
  using add_registers [of 0 "[]" "''thermalRaw''" "''getMetadata''" Thermal]
    add_registers [of 2 "[]" "''thermalRaw''" "''getMetadata''" Thermal]
  by simp

section \<open>One call of poll\<close>

text \<open>
  C4. One call of \<open>poll\<close> calls \<open>api.next_job\<close> at most once, whatever is in progress,
  whatever was reaped and whatever the job source and the pool answer.
\<close>

theorem poll_next_job_at_most_once:
  "next_job_calls (snd (snd (poll env self tr))) \<le> next_job_calls tr + 1"
proof -
  obtain r self1 tr1 where rc: "reap_completed self tr = (r, self1, tr1)"
    by (cases "reap_completed self tr")
  have c: "next_job_calls tr1 = next_job_calls tr"
    using reap_completed_fields(6)[OF rc] .
  show ?thesis
    using c
    by (simp add: poll_def rc Let_def next_job_calls_def
             split: option.splits reply.splits)
qed

text \<open>
  C3. When, after reaping, the number of jobs in progress has reached the worker count,
  \<open>poll\<close> ends there: its result is the result of the reap, whatever the job source
  would have answered, and the trace holds no further call of \<open>api.next_job\<close>.
\<close>

theorem poll_full_no_fetch:
  assumes "reap_completed self tr = (r, self1, tr1)"
    and "num_workers self \<le> int (length (in_progress self1))"
  shows "poll env self tr = (r, self1, tr1) \<and>
         next_job_calls (snd (snd (poll env self tr))) = next_job_calls tr"
proof -
  have "poll env self tr = (r, self1, tr1)"
    using assms reap_completed_fields(1)[OF assms(1)]
    by (simp add: poll_def split: option.splits)
  then show ?thesis using reap_completed_fields(6)[OF assms(1)] by simp
qed

theorem poll_full_no_fetch_witness:
  "reap_completed ((Processor ''audio'' ''analyse'' AudioAnalysis 1)
       \<lparr>in_progress := [(IntV 4, Pending)]\<rparr>) [] =
     (None, (Processor ''audio'' ''analyse'' AudioAnalysis 1)
       \<lparr>in_progress := [(IntV 4, Pending)]\<rparr>, []) \<and>
   poll audio_down_env ((Processor ''audio'' ''analyse'' AudioAnalysis 1)
       \<lparr>in_progress := [(IntV 4, Pending)]\<rparr>) [] =
     (None, (Processor ''audio'' ''analyse'' AudioAnalysis 1)
       \<lparr>in_progress := [(IntV 4, Pending)]\<rparr>, [])"
proof -
  let ?p = "(Processor ''audio'' ''analyse'' AudioAnalysis 1)\<lparr>in_progress := [(IntV 4, Pending)]\<rparr>"
  have h1: "reap_completed ?p [] = (None, ?p, [])"
    by (simp add: reap_completed_def Processor_def)
  have h2: "num_workers ?p \<le> int (length (in_progress ?p))"
    by (simp add: Processor_def)
  show ?thesis
    using h1 poll_full_no_fetch [OF h1 h2, of audio_down_env] by simp
qed

text \<open>
  C9. A call of \<open>poll\<close> on a processor with nothing in progress, for which the job source
  has no job (\<open>None\<close>, or an empty recording), changes nothing: the processor is as it was,
  no exception leaves the call, nothing goes to the pool and nothing is logged. The one
  thing that happens is the call of \<open>api.next_job\<close>.
\<close>

theorem poll_idle_noop:
  assumes "in_progress self = []"
    and "next_job env tr (recording_type self) (processing_state self) = Returns recording"
    and "\<not> truthy recording"
  shows "poll env self tr =
           (None, self,
            if num_workers self \<le> 0 then tr
            else tr @ [NextJob (recording_type self) (processing_state self)]) \<and>
         filter is_schedule (snd (snd (poll env self tr))) = filter is_schedule tr \<and>
         filter is_log (snd (snd (poll env self tr))) = filter is_log tr"
proof -
  have rc: "reap_completed self tr = (None, self, tr)"
    using assms(1) by (simp add: reap_completed_def)
  show ?thesis using assms by (simp add: poll_def rc Let_def)
qed

theorem poll_idle_noop_witness:
  "in_progress (Processor ''audio'' ''toMp3'' AudioConvert 2) = [] \<and>
   next_job idle_env [] ''audio'' ''toMp3'' = Returns None \<and>
   \<not> truthy None \<and>
   poll idle_env (Processor ''audio'' ''toMp3'' AudioConvert 2) [] =
     (None, Processor ''audio'' ''toMp3'' AudioConvert 2, [NextJob ''audio'' ''toMp3''])"
proof -
  let ?p = "Processor ''audio'' ''toMp3'' AudioConvert 2"
  have h1: "in_progress ?p = []" by (simp add: Processor_def)
  have h2: "next_job idle_env [] (recording_type ?p) (processing_state ?p) = Returns None"
    by (simp add: idle_env_def)
  have h3: "\<not> truthy None" by simp
  show ?thesis
    using h1 h2 poll_idle_noop [OF h1 h2 h3] by (simp add: Processor_def)
qed

text \<open>
  C2. For every processor a run can hold and every call of \<open>poll\<close> on it, the number of
  jobs in progress is at most the worker count when the call starts and when it ends,
  whether the call returns or raises; the worker count does not change, and the call adds
  at most one entry.
\<close>

theorem in_flight_bounded:
  assumes "reachable self" "poll env self tr = (r, self', tr')"
  shows "int (length (in_progress self)) \<le> num_workers self \<and>
         int (length (in_progress self')) \<le> num_workers self' \<and>
         num_workers self' = num_workers self \<and>
         length (in_progress self') \<le> Suc (length (in_progress self))"
  using reachable_bound[OF assms(1)] poll_bound[OF assms(2)] by simp

theorem in_flight_bounded_witness:
  "reachable (Processor ''thermalRaw'' ''getMetadata'' Thermal 1) \<and>
   poll audio_down_env (Processor ''thermalRaw'' ''getMetadata'' Thermal 1) [] =
     (None,
      (Processor ''thermalRaw'' ''getMetadata'' Thermal 1)\<lparr>in_progress := [(IntV 7, Pending)]\<rparr>,
      [NextJob ''thermalRaw'' ''getMetadata'',
       LogDebug (IntV 7) (StrV ''thermalRaw'') ''getMetadata'',
       Schedule Thermal [(''id'', IntV 7), (''type'', StrV ''thermalRaw'')]]) \<and>
   int (length (in_progress ((Processor ''thermalRaw'' ''getMetadata'' Thermal 1)
      \<lparr>in_progress := [(IntV 7, Pending)]\<rparr>))) \<le> 1"
proof -
  let ?p = "Processor ''thermalRaw'' ''getMetadata'' Thermal 1"
  let ?p' = "?p\<lparr>in_progress := [(IntV 7, Pending)]\<rparr>"
  let ?tr = "[NextJob ''thermalRaw'' ''getMetadata'',
       LogDebug (IntV 7) (StrV ''thermalRaw'') ''getMetadata'',
       Schedule Thermal [(''id'', IntV 7), (''type'', StrV ''thermalRaw'')]]"
  have h1: "reachable ?p"
    by (rule reachable.created [of _ "''thermalRaw''" "''getMetadata''" Thermal 1])
       (simp add: add_def)
  have h2: "poll audio_down_env ?p [] = (None, ?p', ?tr)"
    by (simp add: poll_def reap_completed_def Processor_def audio_down_env_def
          dict_get_def Let_def)
  show ?thesis
    using h1 h2 in_flight_bounded [OF h1 h2] by (simp add: Processor_def)
qed

section \<open>Errors during poll\<close>

text \<open>
  C5, the code at the failing input. An exception raised while reaping ends the loop of
  \<open>reap_completed\<close> where it is raised. Here job 1 has finished with an exception that
  has no traceback and job 2 has finished well: \<open>poll\<close> removes job 1 and raises, and job 2
  is still in progress when the error reaches the main loop, although its future is done.
\<close>

theorem poll_reap_error_leaves_done_job:
  "poll idle_env
     ((Processor ''thermalRaw'' ''getMetadata'' Thermal 2)
        \<lparr>in_progress := [(IntV 1, worker_crashed), (IntV 2, Finished None)]\<rparr>) [] =
     (Some (AttributeError ''traceback''),
      (Processor ''thermalRaw'' ''getMetadata'' Thermal 2)
        \<lparr>in_progress := [(IntV 2, Finished None)]\<rparr>,
      []) \<and>
   future_done (Finished None)"
  by (simp add: poll_def reap_completed_def Processor_def worker_crashed_def
        dict_del_def dict_contains_def)

text \<open>
  C6, the code at the failing input. Jobs 5 and 6 have both finished, job 5 with an
  exception that has no traceback. The first \<open>poll\<close> removes job 5, raises, and leaves
  job 6 in progress; job 6 goes only with the second \<open>poll\<close>, not with the first one at
  which its future was done.
\<close>

theorem reap_misses_done_job:
  "poll idle_env
     ((Processor ''audio'' ''analyse'' AudioAnalysis 3)
        \<lparr>in_progress := [(IntV 5, worker_crashed), (IntV 6, Finished None), (IntV 8, Pending)]\<rparr>)
     [] =
     (Some (AttributeError ''traceback''),
      (Processor ''audio'' ''analyse'' AudioAnalysis 3)
        \<lparr>in_progress := [(IntV 6, Finished None), (IntV 8, Pending)]\<rparr>,
      []) \<and>
   poll idle_env
     ((Processor ''audio'' ''analyse'' AudioAnalysis 3)
        \<lparr>in_progress := [(IntV 6, Finished None), (IntV 8, Pending)]\<rparr>)
     [] =
     (None,
      (Processor ''audio'' ''analyse'' AudioAnalysis 3)\<lparr>in_progress := [(IntV 8, Pending)]\<rparr>,
      [NextJob ''audio'' ''analyse''])"
  by (simp add: poll_def reap_completed_def Processor_def worker_crashed_def
        dict_del_def dict_contains_def idle_env_def)

text \<open>
  C7, the code at the failing input. The one job in progress has finished with an
  exception that has no traceback: \<open>poll\<close> removes the entry, logs nothing, and the
  \<open>AttributeError\<close> leaves the call.
\<close>

theorem failure_without_traceback_raises:
  "poll idle_env
     ((Processor ''audio'' ''toMp3'' AudioConvert 1)\<lparr>in_progress := [(IntV 5, worker_crashed)]\<rparr>)
     [] =
     (Some (AttributeError ''traceback''),
      (Processor ''audio'' ''toMp3'' AudioConvert 1)\<lparr>in_progress := []\<rparr>,
      [])"
  by (simp add: poll_def reap_completed_def Processor_def worker_crashed_def
        dict_del_def dict_contains_def)

section \<open>One pass of the main loop\<close>

text \<open>
  C1, as the code has it. When a \<open>poll\<close> raises during a pass, it is the \<open>poll\<close> of
  some processor \<open>k\<close>: the processors before it were polled in order without an
  exception, the processors after it are not polled in this pass and stay as they were,
  the main loop logs the traceback once and then sleeps \<open>SLEEP_SECS\<close>.
\<close>

theorem main_pass_stops_at_first_error:
  assumes "poll_each env ps tr = (Some e, ps', tr')"
  shows "main_pass env ps tr = (ps', tr' @ [LogTraceback e, Sleep SLEEP_SECS]) \<and>
         length ps' = length ps \<and>
         (\<exists>k trk. k < length ps \<and>
            poll_each env (take k ps) tr = (None, take k ps', trk) \<and>
            poll env (ps ! k) trk = (Some e, ps' ! k, tr') \<and>
            drop (Suc k) ps' = drop (Suc k) ps)"
  using assms poll_each_first_error [OF assms] poll_each_length [OF assms]
  by (simp add: main_pass_def)

theorem main_pass_stops_at_first_error_witness:
  "poll_each audio_down_env two_processors [] =
     (Some (External ''connection refused''), two_processors, [NextJob ''audio'' ''toMp3'']) \<and>
   main_pass audio_down_env two_processors [] =
     (two_processors,
      [NextJob ''audio'' ''toMp3'', LogTraceback (External ''connection refused''),
       Sleep SLEEP_SECS])"
proof -
  have h: "poll_each audio_down_env two_processors [] =
     (Some (External ''connection refused''), two_processors, [NextJob ''audio'' ''toMp3''])"
    by (simp add: two_processors_eq poll_def reap_completed_def Processor_def
          audio_down_env_def Let_def)
  show ?thesis
    using h main_pass_stops_at_first_error [OF h] by simp
qed

text \<open>
  C1, as the claim has it, fails: the \<open>try\<close> is around the whole \<open>for\<close> loop. With the
  audio job source down, the pass ends at the first processor: the trace holds its call
  of \<open>api.next_job\<close>, the logged traceback and the sleep, and the second processor is
  untouched, although a \<open>poll\<close> of it at that moment would have fetched and scheduled
  job 7.
\<close>

theorem main_pass_skips_counterexample:
  "main_pass audio_down_env two_processors [] =
     (two_processors,
      [NextJob ''audio'' ''toMp3'', LogTraceback (External ''connection refused''), Sleep 2]) \<and>
   poll audio_down_env (two_processors ! 1) [NextJob ''audio'' ''toMp3''] =
     (None,
      (two_processors ! 1)\<lparr>in_progress := [(IntV 7, Pending)]\<rparr>,
      [NextJob ''audio'' ''toMp3'', NextJob ''thermalRaw'' ''getMetadata'',
       LogDebug (IntV 7) (StrV ''thermalRaw'') ''getMetadata'',
       Schedule Thermal [(''id'', IntV 7), (''type'', StrV ''thermalRaw'')]])"
  by (simp add: two_processors_eq main_pass_def poll_def reap_completed_def Processor_def
        audio_down_env_def SLEEP_SECS_def dict_get_def Let_def)

section \<open>format_track_data\<close>

text \<open>
  C10. \<open>format_track_data\<close> never raises. For \<open>None\<close> and for an empty list it returns an
  empty dict. For any other list of tracks it returns the list of the same length in
  which every track has lost its key \<open>frame_start\<close> and kept every other key with its
  value, in the same order; a track without that key is unchanged.
\<close>

theorem format_track_data_spec:
  "format_track_data None = Inr EmptyDict \<and>
   format_track_data (Some []) = Inr EmptyDict \<and>
   (tracks \<noteq> [] \<longrightarrow>
     (\<exists>out. format_track_data (Some tracks) = Inr (TrackList out) \<and>
        length out = length tracks \<and>
        (\<forall>i < length tracks.
           \<not> dict_contains (out ! i) ''frame_start'' \<and>
           (\<forall>k. k \<noteq> ''frame_start'' \<longrightarrow> dict_get (out ! i) k = dict_get (tracks ! i) k) \<and>
           out ! i = filter (\<lambda>kv. fst kv \<noteq> ''frame_start'') (tracks ! i) \<and>
           (\<not> dict_contains (tracks ! i) ''frame_start'' \<longrightarrow> out ! i = tracks ! i))))"
proof -
  let ?out = "map (filter (\<lambda>kv. fst kv \<noteq> ''frame_start'')) tracks"
  have a: "format_track_data (Some tracks) = Inr (TrackList ?out)" if "tracks \<noteq> []"
    using that by (simp add: format_track_data_def format_track_loop_eq)
  have b: "\<not> dict_contains (?out ! i) ''frame_start'' \<and>
           (\<forall>k. k \<noteq> ''frame_start'' \<longrightarrow> dict_get (?out ! i) k = dict_get (tracks ! i) k) \<and>
           ?out ! i = filter (\<lambda>kv. fst kv \<noteq> ''frame_start'') (tracks ! i) \<and>
           (\<not> dict_contains (tracks ! i) ''frame_start'' \<longrightarrow> ?out ! i = tracks ! i)"
    if "i < length tracks" for i
    using that by (force simp: dict_contains_def dict_get_filter_other filter_id_conv)
  show ?thesis
    using a b by (auto simp: format_track_data_def)
qed

theorem format_track_data_spec_witness:
  "[[(''frame_start'', 3::int), (''label'', 1)], [(''label'', 2)]] \<noteq> [] \<and>
   format_track_data (Some [[(''frame_start'', 3::int), (''label'', 1)], [(''label'', 2)]]) =
     Inr (TrackList [[(''label'', 1)], [(''label'', 2)]])"
  using format_track_data_spec [of "[[(''frame_start'', 3::int), (''label'', 1)], [(''label'', 2)]]"]
  by (auto simp: nth_Cons' less_Suc_eq_0_disj list_eq_iff_nth_eq)

end
